theory Spec2Isabelle
  imports Main
begin

unbundle bit_operations_syntax

section \<open>Errors\<close>

text \<open>
  The exceptions the library can raise.  \<open>ValueError\<close> is raised explicitly by
  \<open>smallest_prime_divisor\<close>, by numpy for a negative array length, and by the
  interpreter when a tuple unpacking receives the wrong number of values;
  \<open>IndexError\<close> by a list subscript out of range; \<open>ZeroDivisionError\<close> by
  \<open>%\<close> and \<open>//\<close> with a zero divisor; \<open>OverflowError\<close> by the addition of
  a float and an integer too large to be made a float.
\<close>

datatype error = ValueError | IndexError | ZeroDivisionError | OverflowError

section \<open>base.py: gcd\<close>

text \<open>
  The Euclidean loop \<open>while num2 != 0: num1, num2 = num2, num1 % num2\<close>.
  Python's \<open>%\<close> on integers is the floored remainder, which is \<open>mod\<close> on
  \<open>int\<close>; the divisor is non-zero inside the loop.
\<close>

function gcd_loop :: "int \<Rightarrow> int \<Rightarrow> int" where
  "gcd_loop num1 num2 = (if num2 \<noteq> 0 then gcd_loop num2 (num1 mod num2) else num1)"
  by pat_completeness auto
termination
  by (relation "measure (\<lambda>(num1, num2). nat \<bar>num2\<bar>)") (auto simp: abs_mod_less)

declare gcd_loop.simps [simp del]

definition gcd_py :: "int \<Rightarrow> int \<Rightarrow> int" where
  "gcd_py num1 num2 =
     (if num1 = 0 then num2
      else if num2 = 0 then num1
      else let num1 = (if num1 < 0 then - num1 else num1);
               num2 = (if num2 < 0 then - num2 else num2)
           in gcd_loop num1 num2)"

section \<open>base.py: smallest\_prime\_divisor\<close>

text \<open>
  \<open>for prime in [2, 3, 5]: if num % prime == 0: return prime\<close>: the first
  entry of the list that divides \<open>num\<close>, if any.  The list is the literal
  \<open>[2, 3, 5]\<close>, so \<open>%\<close> has a non-zero divisor.
\<close>

fun small_prime_check :: "int \<Rightarrow> int list \<Rightarrow> int option" where
  "small_prime_check num [] = None"
| "small_prime_check num (prime # rest) =
     (if num mod prime = 0 then Some prime else small_prime_check num rest)"

definition diffs :: "int list" where
  "diffs = [6, 4, 2, 4, 2, 4, 6, 2]"

lemma diffs_pos: "i < length diffs \<Longrightarrow> 0 < diffs ! i"
proof -
  have "\<forall>d \<in> set diffs. 0 < d" by (simp add: diffs_def)
  then show "i < length diffs \<Longrightarrow> 0 < diffs ! i" by (meson nth_mem)
qed

text \<open>
  The loop \<open>while cand <= bound and cand*cand <= num\<close>, entered with
  \<open>cand = 7\<close> and \<open>i = 1\<close>.  The index \<open>i\<close> is a local that only takes
  the values \<open>1\<close> and \<open>(i + 1) % 8\<close>, so it is a natural number; the
  subscript \<open>diffs[i]\<close> and the remainder \<open>num % cand\<close> keep their
  failure branches.
\<close>

function wheel_loop :: "int \<Rightarrow> int \<Rightarrow> int \<Rightarrow> nat \<Rightarrow> error + int" where
  "wheel_loop num bound cand i =
     (if cand \<le> bound \<and> cand * cand \<le> num then
        (if cand = 0 then Inl ZeroDivisionError
         else if num mod cand = 0 then Inr cand
         else if length diffs \<le> i then Inl IndexError
         else wheel_loop num bound (cand + diffs ! i) ((i + 1) mod 8))
      else Inr num)"
  by pat_completeness auto
termination
  by (relation "measure (\<lambda>(num, bound, cand, i). nat (bound + 1 - cand))")
     (auto simp: diffs_pos not_le)

declare wheel_loop.simps [simp del]

text \<open>The optional argument \<open>bound\<close> is \<open>None\<close> when it is left out.\<close>

definition smallest_prime_divisor :: "int \<Rightarrow> int option \<Rightarrow> error + int" where
  "smallest_prime_divisor num bound =
     (if num < 1 then Inl ValueError
      else if num = 1 then Inr num
      else case small_prime_check num [2, 3, 5] of
             Some prime \<Rightarrow> Inr prime
           | None \<Rightarrow>
               (let bound = (case bound of None \<Rightarrow> num | Some b \<Rightarrow> b)
                in wheel_loop num bound 7 1))"

section \<open>base.py: primes\<close>

text \<open>
  \<open>int(limit ** 0.5)\<close>: the integer part of the square root, here computed
  exactly (the floating-point value agrees with it on the small arguments
  evaluated below).
\<close>

definition isqrt :: "int \<Rightarrow> int" where
  "isqrt n = int (length (filter (\<lambda>k. k * k \<le> n) [1..n]))"

text \<open>
  \<open>sieve[start::step] = False\<close> for \<open>start \<ge> 0\<close> and \<open>step > 0\<close>, which
  is what the loop produces (\<open>i \<ge> 1\<close> gives \<open>k \<ge> 5\<close>).
\<close>

definition slice_clear :: "bool list \<Rightarrow> int \<Rightarrow> int \<Rightarrow> bool list" where
  "slice_clear sieve start step =
     map (\<lambda>j. if start \<le> int j \<and> (int j - start) mod step = 0 then False else sieve ! j)
       [0..<length sieve]"

fun sieve_loop :: "int list \<Rightarrow> bool list \<Rightarrow> error + bool list" where
  "sieve_loop [] sieve = Inr sieve"
| "sieve_loop (i # rest) sieve =
     (if i < - int (length sieve) \<or> int (length sieve) \<le> i then Inl IndexError
      else if sieve ! nat (if i < 0 then i + int (length sieve) else i) then
        (let k = (3 * i + 1) OR 1;
             sieve = slice_clear sieve (k * k div 3) (2 * k);
             sieve = slice_clear sieve (k * (k - 2 * (i AND 1) + 4) div 3) (2 * k)
         in sieve_loop rest sieve)
      else sieve_loop rest sieve)"

definition nonzero :: "bool list \<Rightarrow> int list" where
  "nonzero sieve = map int (filter (\<lambda>j. sieve ! j) [0..<length sieve])"

text \<open>
  \<open>numpy.ones\<close> raises \<open>ValueError\<close> for a negative length; the loop runs
  over \<open>range(1, int(limit ** 0.5) // 3 + 1)\<close>.
\<close>

definition primes :: "int \<Rightarrow> error + int list" where
  "primes limit =
     (let size = limit div 3 + (if limit mod 6 = 2 then 1 else 0)
      in if size < 0 then Inl ValueError
         else case sieve_loop [1..isqrt limit div 3 + 1 - 1] (replicate (nat size) True) of
                Inl e \<Rightarrow> Inl e
              | Inr sieve \<Rightarrow>
                  Inr (2 # 3 # map (\<lambda>j. (3 * j + 1) OR 1) (drop 1 (nonzero sieve))))"

section \<open>base.py: factor\<close>

text \<open>
  The inner loop \<open>while num % prime == 0: exp += 1; num = num // prime\<close>.
  It does not end when \<open>num\<close> is \<open>0\<close> or \<open>prime\<close> is \<open>1\<close>, so it is a
  partial function: \<open>None\<close> is the loop that runs forever.
\<close>

partial_function (option) power_loop :: "int \<Rightarrow> int \<Rightarrow> int \<Rightarrow> (error + int \<times> int) option" where
  "power_loop num prime exp =
     (if prime = 0 then Some (Inl ZeroDivisionError)
      else if num mod prime = 0 then power_loop (num div prime) prime (exp + 1)
      else Some (Inr (num, exp)))"

text \<open>
  The outer loop \<open>while num != 1\<close>.  An exception of \<open>smallest_prime_divisor\<close>
  leaves the loop, and \<open>num // prime\<close> keeps its failure branch.
\<close>

partial_function (option) factor_loop ::
  "int \<Rightarrow> (int \<times> int) list \<Rightarrow> (error + (int \<times> int) list) option" where
  "factor_loop num factors =
     (if num \<noteq> 1 then
        (case smallest_prime_divisor num None of
           Inl e \<Rightarrow> Some (Inl e)
         | Inr prime \<Rightarrow>
             if prime = 0 then Some (Inl ZeroDivisionError)
             else (case power_loop (num div prime) prime 1 of
                     None \<Rightarrow> None
                   | Some (Inl e) \<Rightarrow> Some (Inl e)
                   | Some (Inr (num', exp)) \<Rightarrow> factor_loop num' (factors @ [(prime, exp)])))
      else Some (Inr factors))"

declare power_loop.simps [code] factor_loop.simps [code]

definition factor :: "int \<Rightarrow> (error + (int \<times> int) list) option" where
  "factor num =
     (if num \<in> {- 1, 0, 1} then Some (Inr [])
      else factor_loop (if num < 0 then - num else num) [])"

section \<open>base.py: factors\<close>

text \<open>
  \<open>itertools.product\<close> of a list of pools: the leftmost pool varies slowest,
  and no pool at all gives the one empty choice.
\<close>

fun cartesian_product :: "'a list list \<Rightarrow> 'a list list" where
  "cartesian_product [] = [[]]"
| "cartesian_product (pool # pools) =
     concat (map (\<lambda>x. map ((#) x) (cartesian_product pools)) pool)"

definition range_py :: "int \<Rightarrow> int list" where
  "range_py stop = [0..stop - 1]"

text \<open>
  \<open>primes_, exps = zip(*factorization)\<close>: \<open>zip\<close> of the pairs yields the
  tuple of first components and the tuple of second components, and yields
  nothing when there is no pair; unpacking nothing into two names raises
  \<open>ValueError\<close>.
\<close>

definition unzip :: "(int \<times> int) list \<Rightarrow> error + (int list \<times> int list)" where
  "unzip factorization =
     (if factorization = [] then Inl ValueError
      else Inr (map fst factorization, map snd factorization))"

text \<open>
  The body of the loop over \<open>exp_choices\<close>: \<open>val = 1\<close>, then
  \<open>val *= prime**exp\<close> over \<open>zip(primes_, exp_choice)\<close>.  The exponents come
  from \<open>range\<close>, so they are not negative.
\<close>

definition choice_value :: "int list \<Rightarrow> int list \<Rightarrow> int" where
  "choice_value primes' exp_choice =
     fold (\<lambda>(prime, exp) val. val * prime ^ nat exp) (zip primes' exp_choice) 1"

definition factors :: "int \<Rightarrow> (error + int list) option" where
  "factors num =
     (case factor num of
        None \<Rightarrow> None
      | Some (Inl e) \<Rightarrow> Some (Inl e)
      | Some (Inr factorization) \<Rightarrow>
          (case unzip factorization of
             Inl e \<Rightarrow> Some (Inl e)
           | Inr (primes', exps) \<Rightarrow>
               (let exp_choices = cartesian_product (map (\<lambda>exp. range_py (exp + 1)) exps);
                    ret = map (choice_value primes') exp_choices
                in Some (Inr (sort ret)))))"

section \<open>sums.py: convolution\_coeff\<close>

text \<open>
  The loop \<open>for factor in factors(val): ret += fun1(factor) * fun2(val // factor)\<close>,
  with the arithmetic functions as total functions into a semiring.
\<close>

fun convolution_loop ::
  "int \<Rightarrow> (int \<Rightarrow> 'a::semiring_0) \<Rightarrow> (int \<Rightarrow> 'a) \<Rightarrow> int list \<Rightarrow> 'a \<Rightarrow> error + 'a" where
  "convolution_loop val fun1 fun2 [] ret = Inr ret"
| "convolution_loop val fun1 fun2 (factor' # rest) ret =
     (if factor' = 0 then Inl ZeroDivisionError
      else convolution_loop val fun1 fun2 rest (ret + fun1 factor' * fun2 (val div factor')))"

definition convolution_coeff ::
  "int \<Rightarrow> (int \<Rightarrow> 'a::semiring_0) \<Rightarrow> (int \<Rightarrow> 'a) \<Rightarrow> (error + 'a) option" where
  "convolution_coeff val fun1 fun2 =
     (case factors val of
        None \<Rightarrow> None
      | Some (Inl e) \<Rightarrow> Some (Inl e)
      | Some (Inr divisors) \<Rightarrow> Some (convolution_loop val fun1 fun2 divisors 0))"

section \<open>sums.py: compute\_partial\_sums\<close>

text \<open>
  The elements of \<open>seq\<close> are typed \<open>Union[int, complex]\<close>: integers, floats
  and complex numbers.  A float is an IEEE 754 binary64 value.  Every finite
  binary64 value is an integer multiple of \<open>2^-1074\<close>, so \<open>Finite k\<close> stands
  for \<open>k * 2^-1074\<close> (\<open>Finite 0\<close> is \<open>+0.0\<close>), \<open>NegZero\<close> for \<open>-0.0\<close>,
  \<open>Infinity True\<close> for \<open>+inf\<close> and \<open>Infinity False\<close> for \<open>-inf\<close>.
\<close>

datatype float64 = Finite int | NegZero | Infinity bool | NaN

text \<open>The number of binary digits of a natural number (\<open>int.bit_length\<close>).\<close>

fun bit_length :: "nat \<Rightarrow> nat" where
  "bit_length n = (if n = 0 then 0 else Suc (bit_length (n div 2)))"

declare bit_length.simps [simp del]

text \<open>
  Rounding to \<open>53\<close> significant bits, ties to the even neighbour: the rounding
  of binary64 arithmetic.  The operands of an addition are multiples of
  \<open>2^-1074\<close>, so their exact sum is one too and nothing is lost below the
  smallest subnormal.
\<close>

definition round_nat :: "nat \<Rightarrow> nat" where
  "round_nat a =
     (let n = bit_length a
      in if n \<le> 53 then a
         else let s = n - 53; m = a div 2 ^ s; r = a mod 2 ^ s; h = 2 ^ (s - 1)
              in (if h < r \<or> (r = h \<and> odd m) then m + 1 else m) * 2 ^ s)"

definition round_half_even :: "int \<Rightarrow> int" where
  "round_half_even k = sgn k * int (round_nat (nat \<bar>k\<bar>))"

text \<open>
  \<open>float + float\<close>: the exact sum, rounded; a result of magnitude \<open>2^1024\<close>
  (that is \<open>2^2098\<close> units of \<open>2^-1074\<close>) or more is an infinity, and no
  exception is raised.  A zero sum is \<open>+0.0\<close>, except \<open>-0.0 + -0.0\<close>.
\<close>

definition float_add :: "float64 \<Rightarrow> float64 \<Rightarrow> float64" where
  "float_add x y =
     (case (x, y) of
        (NaN, _) \<Rightarrow> NaN
      | (_, NaN) \<Rightarrow> NaN
      | (Infinity s, Infinity t) \<Rightarrow> if s = t then Infinity s else NaN
      | (Infinity s, _) \<Rightarrow> Infinity s
      | (_, Infinity t) \<Rightarrow> Infinity t
      | (NegZero, NegZero) \<Rightarrow> NegZero
      | (NegZero, Finite b) \<Rightarrow> Finite b
      | (Finite a, NegZero) \<Rightarrow> Finite a
      | (Finite a, Finite b) \<Rightarrow>
          (let r = round_half_even (a + b)
           in if 2 ^ 2098 \<le> \<bar>r\<bar> then Infinity (0 < r) else Finite r))"






section \<open>Notions used in the statements\<close>

text \<open>
  The residues modulo \<open>30\<close> that the candidates of the wheel run through,
  by the index \<open>i\<close> into \<open>diffs\<close>.
\<close>

definition wheel_res :: "int list" where
  "wheel_res = [1, 7, 11, 13, 17, 19, 23, 29]"

text \<open>No divisor of \<open>num\<close> lies in \<open>[2, c)\<close>.\<close>

definition no_divisor_below :: "int \<Rightarrow> int \<Rightarrow> bool" where
  "no_divisor_below num c \<longleftrightarrow> (\<forall>d. 2 \<le> d \<and> d < c \<longrightarrow> \<not> d dvd num)"

text \<open>Primality, by trial division.\<close>

definition is_prime :: "int \<Rightarrow> bool" where
  "is_prime p \<longleftrightarrow> 2 \<le> p \<and> (\<forall>d \<in> {2..<p}. \<not> d dvd p)"

text \<open>\<open>p\<close> is the least divisor of \<open>num\<close> above \<open>1\<close>.\<close>

definition least_divisor :: "int \<Rightarrow> int \<Rightarrow> bool" where
  "least_divisor num p \<longleftrightarrow> 2 \<le> p \<and> p dvd num \<and> no_divisor_below num p"

text \<open>
  What a factorization of \<open>num\<close> is: primes with exponents at least \<open>1\<close>,
  the primes strictly increasing, and the product of the prime powers is \<open>num\<close>.
\<close>

definition prime_powers :: "(int \<times> int) list \<Rightarrow> int" where
  "prime_powers fs = (\<Prod>(p, e) \<leftarrow> fs. p ^ nat e)"

definition is_factorization :: "int \<Rightarrow> (int \<times> int) list \<Rightarrow> bool" where
  "is_factorization num fs \<longleftrightarrow>
     list_all (\<lambda>(p, e). is_prime p \<and> 1 \<le> e) fs
     \<and> sorted_wrt (<) (map fst fs)
     \<and> prime_powers fs = num"

text \<open>
  The list \<open>ret\<close> of \<open>factors\<close> before sorting, by recursion over the
  factorization.
\<close>

fun divisor_list :: "(int \<times> int) list \<Rightarrow> int list" where
  "divisor_list [] = [1]"
| "divisor_list ((p, e) # fs) =
     concat (map (\<lambda>x. map (\<lambda>v. p ^ nat x * v) (divisor_list fs)) [0..e])"

text \<open>
  The float whose value is the integer \<open>n\<close>, and the representable values:
  \<open>Finite k\<close> is a binary64 value when \<open>k\<close> has at most \<open>53\<close> significant bits
  and is below \<open>2^1024\<close> in magnitude.
\<close>

definition double :: "int \<Rightarrow> float64" where
  "double n = Finite (n * 2 ^ 1074)"





section \<open>Properties of gcd\<close>

lemma gcd_loop_eq_gcd: "0 \<le> b \<Longrightarrow> 0 \<le> a \<Longrightarrow> gcd_loop a b = gcd a b"
proof (induction a b rule: gcd_loop.induct)
  case (1 num1 num2)
  show ?case
  proof (cases "num2 = 0")
    case True
    with "1.prems" show ?thesis by (subst gcd_loop.simps) simp
  next
    case False
    with "1.prems" have pos: "0 < num2" by simp
    then have "0 \<le> num1 mod num2" by simp
    with "1.IH" False "1.prems" have "gcd_loop num2 (num1 mod num2) = gcd num2 (num1 mod num2)"
      by simp
    also have "\<dots> = gcd num1 num2"
      by (metis gcd.commute gcd_red_int)
    finally show ?thesis using False by (subst gcd_loop.simps) simp
  qed
qed

lemma gcd_py_nonzero: "a \<noteq> 0 \<Longrightarrow> b \<noteq> 0 \<Longrightarrow> gcd_py a b = gcd a b"
proof -
  assume nz: "a \<noteq> 0" "b \<noteq> 0"
  have "gcd_py a b = gcd_loop \<bar>a\<bar> \<bar>b\<bar>"
    using nz by (simp add: gcd_py_def Let_def abs_if)
  also have "\<dots> = gcd \<bar>a\<bar> \<bar>b\<bar>"
    by (rule gcd_loop_eq_gcd) simp_all
  finally show ?thesis by simp
qed

text \<open>
  C5 (the code departs from the claim).  The two early returns come before the
  signs are normalised, so a zero argument hands the other argument back with
  its sign: \<open>gcd(0, -5)\<close> is \<open>-5\<close>, which is negative and is not \<open>|-5|\<close>.
\<close>

theorem gcd_zero_negative: "gcd_py 0 (- 5) = - 5 \<and> gcd_py 0 (- 5) < 0 \<and> gcd_py 0 (- 5) \<noteq> \<bar>- 5\<bar>"
  by (simp add: gcd_py_def)

text \<open>
  C10.  gcd is commutative: \<open>gcd(a, b) == gcd(b, a)\<close> for all integers
  \<open>a\<close> and \<open>b\<close>, of any sign and including zero.
\<close>

theorem gcd_py_commute: "gcd_py a b = gcd_py b a"
proof (cases "a = 0 \<or> b = 0")
  case True
  then show ?thesis by (cases "a = 0"; cases "b = 0"; simp add: gcd_py_def)
next
  case False
  then show ?thesis by (simp add: gcd_py_nonzero gcd.commute)
qed

text \<open>
  When neither argument is zero, \<open>gcd\<close> is the greatest common divisor: it is
  positive, divides both arguments, and no common divisor is larger.
\<close>

theorem gcd_py_nonzero_spec:
  "a \<noteq> 0 \<Longrightarrow> b \<noteq> 0 \<Longrightarrow>
   gcd_py a b = gcd a b \<and> 0 < gcd_py a b \<and> gcd_py a b dvd a \<and> gcd_py a b dvd b
   \<and> (\<forall>d. d dvd a \<and> d dvd b \<longrightarrow> d \<le> gcd_py a b)"
proof -
  assume nz: "a \<noteq> 0" "b \<noteq> 0"
  then have eq: "gcd_py a b = gcd a b" by (rule gcd_py_nonzero)
  have pos: "0 < gcd a b" using nz by (simp add: gcd_pos_int)
  have "d \<le> gcd a b" if "d dvd a \<and> d dvd b" for d
    using that pos by (intro zdvd_imp_le) simp_all
  with eq pos show ?thesis by simp
qed

theorem gcd_py_nonzero_spec_witness:
  "gcd_py (- 1001) 26 = 13 \<and> gcd_py 12 30 = 6"
proof -
  have "(- 1001 :: int) \<noteq> 0" "(26 :: int) \<noteq> 0" "(12 :: int) \<noteq> 0" "(30 :: int) \<noteq> 0"
    by simp_all
  then have "gcd_py (- 1001) 26 = gcd (- 1001) 26" "gcd_py 12 30 = gcd 12 30"
    using gcd_py_nonzero_spec [of "- 1001" 26] gcd_py_nonzero_spec [of 12 30] by simp_all
  moreover have "gcd (- 1001 :: int) 26 = 13" "gcd (12 :: int) 30 = 6" by code_simp+
  ultimately show ?thesis by simp
qed

section \<open>Properties of compute\_partial\_sums\<close>

subsection \<open>Rounding\<close>

lemma bit_length_bounds:
  "0 < a \<Longrightarrow> 2 ^ (bit_length a - 1) \<le> a \<and> a < 2 ^ bit_length a"
proof (induction a rule: bit_length.induct)
  case (1 n)
  from "1.prems" have bl: "bit_length n = Suc (bit_length (n div 2))"
    by (subst bit_length.simps) simp
  show ?case
  proof (cases "n div 2 = 0")
    case True
    with "1.prems" have "n = 1" by presburger
    then show ?thesis by (simp add: bit_length.simps)
  next
    case False
    then have pos: "0 < n div 2" by simp
    let ?b = "bit_length (n div 2)"
    from "1.IH" "1.prems" pos have ih: "2 ^ (?b - 1) \<le> n div 2" "n div 2 < 2 ^ ?b" by simp_all
    from pos have b1: "0 < ?b" by (subst bit_length.simps) simp
    then have "(2::nat) ^ ?b = 2 * 2 ^ (?b - 1)" by (cases ?b) simp_all
    moreover from ih(1) have "2 * 2 ^ (?b - 1) \<le> 2 * (n div 2)" by simp
    ultimately have "2 ^ ?b \<le> 2 * (n div 2)" by simp
    also have "\<dots> \<le> n" by simp
    finally have lo: "2 ^ ?b \<le> n" .
    from ih(2) have "n div 2 + 1 \<le> 2 ^ ?b" by simp
    then have "2 * (n div 2 + 1) \<le> 2 * 2 ^ ?b" by simp
    moreover have "n < 2 * (n div 2 + 1)" by presburger
    ultimately have hi: "n < 2 ^ Suc ?b" by simp
    from lo hi show ?thesis by (simp add: bl)
  qed
qed

lemma bit_length_unique:
  assumes "2 ^ n \<le> a" "a < 2 ^ Suc n"
  shows "bit_length a = Suc n"
proof -
  from assms(1) have pos: "0 < a" by (metis less_le_trans zero_less_numeral zero_less_power)
  let ?b = "bit_length a"
  from bit_length_bounds [OF pos] have b: "2 ^ (?b - 1) \<le> a" "a < 2 ^ ?b" by simp_all
  have "(2::nat) ^ n < 2 ^ ?b" using assms(1) b(2) by (rule le_less_trans)
  then have "n < ?b" by simp
  moreover have "(2::nat) ^ (?b - 1) < 2 ^ Suc n" using b(1) assms(2) by (rule le_less_trans)
  then have "?b - 1 < Suc n" by (simp only: power_strict_increasing_iff one_less_numeral_iff semiring_norm)
  ultimately show ?thesis by simp
qed

lemma bit_length_shift:
  assumes "0 < a"
  shows "bit_length (a * 2 ^ j) = bit_length a + j"
proof -
  let ?b = "bit_length a"
  from bit_length_bounds [OF assms] have b: "2 ^ (?b - 1) \<le> a" "a < 2 ^ ?b" by simp_all
  from assms have b1: "0 < ?b" by (subst bit_length.simps) simp
  then obtain c where c: "?b = Suc c" by (cases ?b) simp_all
  from b c have "2 ^ c * 2 ^ j \<le> a * 2 ^ j" "a * 2 ^ j < 2 ^ Suc c * 2 ^ j" by simp_all
  then have "2 ^ (c + j) \<le> a * 2 ^ j" "a * 2 ^ j < 2 ^ Suc (c + j)"
    by (simp_all add: power_add)
  then have "bit_length (a * 2 ^ j) = Suc (c + j)" by (rule bit_length_unique)
  with c show ?thesis by simp
qed

lemma round_nat_shift: "round_nat (a * 2 ^ j) = round_nat a * 2 ^ j"
proof (cases "a = 0")
  case True
  then show ?thesis by (simp add: round_nat_def bit_length.simps)
next
  case False
  then have pos: "0 < a" by simp
  let ?n = "bit_length a"
  have bl: "bit_length (a * 2 ^ j) = ?n + j" by (rule bit_length_shift [OF pos])
  show ?thesis
  proof (cases "?n + j \<le> 53")
    case True
    then show ?thesis by (simp add: round_nat_def bl)
  next
    case big: False
    show ?thesis
    proof (cases "?n \<le> 53")
      case True
      define s where "s = ?n + j - 53"
      from True big have sj: "s \<le> j" and s0: "0 < s" by (simp_all add: s_def)
      then obtain d where d: "j = s + d" by (auto simp: le_iff_add)
      have m: "a * 2 ^ j div 2 ^ s = a * 2 ^ d"
        by (simp add: d power_add)
      have r: "a * 2 ^ j mod 2 ^ s = 0"
        by (simp add: d power_add)
      have "round_nat (a * 2 ^ j) = a * 2 ^ d * 2 ^ s"
        using big by (simp add: round_nat_def bl Let_def s_def [symmetric] m r)
      also have "\<dots> = a * 2 ^ j" by (simp add: d power_add)
      finally show ?thesis using True by (simp add: round_nat_def)
    next
      case False
      define s where "s = ?n - 53"
      from False have s0: "0 < s" by (simp add: s_def)
      then obtain t where t: "s = Suc t" by (cases s) simp_all
      have s': "?n + j - 53 = s + j" using False by (simp add: s_def)
      have m: "a * 2 ^ j div 2 ^ (s + j) = a div 2 ^ s"
        by (simp add: power_add)
      have r: "a * 2 ^ j mod 2 ^ (s + j) = a mod 2 ^ s * 2 ^ j"
        by (simp add: power_add)
      have h: "(2::nat) ^ (s + j - 1) = 2 ^ (s - 1) * 2 ^ j"
        by (simp add: t power_add)
      define m' where "m' = a div 2 ^ s"
      define r' where "r' = a mod 2 ^ s"
      define h' where "h' = (2::nat) ^ (s - 1)"
      have "round_nat (a * 2 ^ j)
            = (if 2 ^ (s + j - 1) < a * 2 ^ j mod 2 ^ (s + j)
                  \<or> (a * 2 ^ j mod 2 ^ (s + j) = 2 ^ (s + j - 1)
                      \<and> odd (a * 2 ^ j div 2 ^ (s + j)))
               then a * 2 ^ j div 2 ^ (s + j) + 1 else a * 2 ^ j div 2 ^ (s + j)) * 2 ^ (s + j)"
        unfolding round_nat_def Let_def bl s' using big by (simp only: if_False)
      also have "\<dots> = (if h' * 2 ^ j < r' * 2 ^ j \<or> (r' * 2 ^ j = h' * 2 ^ j \<and> odd m')
                          then m' + 1 else m') * 2 ^ (s + j)"
        by (simp only: m r h m'_def r'_def h'_def)
      also have "\<dots> = (if h' < r' \<or> (r' = h' \<and> odd m') then m' + 1 else m') * 2 ^ (s + j)"
        by simp
      also have "\<dots> = (if h' < r' \<or> (r' = h' \<and> odd m') then m' + 1 else m') * 2 ^ s * 2 ^ j"
        by (simp add: power_add)
      also have "(if h' < r' \<or> (r' = h' \<and> odd m') then m' + 1 else m') * 2 ^ s = round_nat a"
        unfolding round_nat_def Let_def m'_def r'_def h'_def s_def
        using False by (simp only: if_False)
      finally show ?thesis .
    qed
  qed
qed

lemma round_half_even_shift: "round_half_even (k * 2 ^ j) = round_half_even k * 2 ^ j"
proof -
  have "nat \<bar>k * 2 ^ j\<bar> = nat \<bar>k\<bar> * 2 ^ j"
    by (simp add: abs_mult nat_mult_distrib)
  moreover have "sgn (k * 2 ^ j) = sgn k" by (simp add: sgn_mult)
  ultimately show ?thesis
    by (simp add: round_half_even_def round_nat_shift)
qed


lemma overflow_scaled: "(2 ^ 2098 \<le> \<bar>r * 2 ^ 1074\<bar>) = (2 ^ 1024 \<le> \<bar>r :: int\<bar>)"
proof -
  have "(2::int) ^ (1024 + 1074) = 2 ^ 1024 * 2 ^ 1074" by (rule power_add)
  moreover have "(1024::nat) + 1074 = 2098" by simp
  ultimately have e: "(2::int) ^ 2098 = 2 ^ 1024 * 2 ^ 1074" by (simp only:)
  have p: "(0::int) < 2 ^ 1074" by (rule zero_less_power) simp
  have a: "\<bar>r * 2 ^ 1074\<bar> = \<bar>r\<bar> * 2 ^ 1074"
    using p by (simp only: abs_mult abs_of_pos)
  show ?thesis
    unfolding e a using p by (rule mult_le_cancel_right_pos)
qed

lemma positive_scaled: "(0 < r * 2 ^ 1074) = (0 < (r :: int))"
proof -
  have p: "(0::int) < 2 ^ 1074" by (rule zero_less_power) simp
  then show ?thesis by (simp add: zero_less_mult_iff)
qed

lemma float_add_double:
  "float_add (double a) (double b)
   = (let r = round_half_even (a + b)
      in if 2 ^ 1024 \<le> \<bar>r\<bar> then Infinity (0 < r) else double r)"
proof -
  have sum: "a * 2 ^ 1074 + b * 2 ^ 1074 = (a + b) * 2 ^ 1074"
    by (simp only: distrib_right)
  show ?thesis
    unfolding float_add_def double_def
    by (simp only: prod.case float64.case sum round_half_even_shift Let_def
        overflow_scaled positive_scaled)
qed





subsection \<open>The loop\<close>







lemma round_1e16_plus_2: "round_half_even 10000000000000002 = 10000000000000002"
  by (simp add: round_half_even_def round_nat_def bit_length.simps Let_def)



lemma float_add_1e16_2:
  "float_add (double 10000000000000000) (double 2) = double 10000000000000002"
  by (simp add: float_add_double Let_def round_1e16_plus_2)









section \<open>Properties of smallest\_prime\_divisor\<close>

lemma length_diffs: "length diffs = 8"
  by (simp add: diffs_def)

lemma wheel_cases:
  "i < 8 \<Longrightarrow> i = 0 \<or> i = 1 \<or> i = 2 \<or> i = 3 \<or> i = 4 \<or> i = 5 \<or> i = 6 \<or> i = (7::nat)"
  by arith

lemma wheel_next:
  assumes "i < 8" "cand mod 30 = wheel_res ! i"
  shows "(cand + diffs ! i) mod 30 = wheel_res ! ((i + 1) mod 8)"
proof -
  have "(cand + diffs ! i) mod 30 = (cand mod 30 + diffs ! i) mod 30"
    by (simp add: mod_add_left_eq)
  also have "\<dots> = (wheel_res ! i + diffs ! i) mod 30" by (simp add: assms(2))
  also have "\<dots> = wheel_res ! ((i + 1) mod 8)"
    using wheel_cases [OF assms(1)]
    by (elim disjE; simp add: diffs_def wheel_res_def)
  finally show ?thesis .
qed

lemma gap_aux:
  fixes q :: int
  assumes "d = 30 * q + r"
    "r \<in> {2,3,4,5,6,8,9,10,12,14,15,16,18,20,21,22,24,25,26,27,28,30,32,33,34,35,36}"
  shows "2 dvd d \<or> 3 dvd d \<or> 5 dvd d"
proof -
  have "2 dvd r \<or> 3 dvd r \<or> 5 dvd r" using assms(2) by auto
  moreover have "2 dvd 30 * q" "3 dvd 30 * q" "5 dvd 30 * q" by simp_all
  ultimately show ?thesis unfolding assms(1) by (meson dvd_add)
qed

lemma wheel_gap:
  assumes "i < 8" "cand mod 30 = wheel_res ! i" "cand < d" "d < cand + diffs ! i"
  shows "2 dvd d \<or> 3 dvd d \<or> 5 dvd d"
proof -
  define q where "q = cand div 30"
  have c: "cand = 30 * q + wheel_res ! i"
    using assms(2) [symmetric] by (simp add: q_def)
  define j where "j = d - cand"
  have d: "d = 30 * q + (wheel_res ! i + j)" using c by (simp add: j_def)
  have j: "0 < j" "j < diffs ! i" using assms(3,4) by (simp_all add: j_def)
  have "wheel_res ! i + j
        \<in> {2,3,4,5,6,8,9,10,12,14,15,16,18,20,21,22,24,25,26,27,28,30,32,33,34,35,36}"
    using wheel_cases [OF assms(1)] j
    by (elim disjE; simp add: diffs_def wheel_res_def; arith)
  with d show ?thesis by (rule gap_aux)
qed

lemma no_divisor_below_step:
  assumes inv: "no_divisor_below num cand" and c7: "7 \<le> cand" and i: "i < 8"
    and res: "cand mod 30 = wheel_res ! i" and nd: "\<not> cand dvd num"
  shows "no_divisor_below num (cand + diffs ! i)"
  unfolding no_divisor_below_def
proof (intro allI impI)
  fix d assume d: "2 \<le> d \<and> d < cand + diffs ! i"
  have small: "\<not> 2 dvd num" "\<not> 3 dvd num" "\<not> 5 dvd num"
    using inv c7 by (simp_all add: no_divisor_below_def)
  consider "d < cand" | "d = cand" | "cand < d" by linarith
  then show "\<not> d dvd num"
  proof cases
    case 1
    with inv d show ?thesis by (simp add: no_divisor_below_def)
  next
    case 2
    with nd show ?thesis by simp
  next
    case 3
    with d have "2 dvd d \<or> 3 dvd d \<or> 5 dvd d"
      using wheel_gap [OF i res] by blast
    with small show ?thesis by (meson dvd_trans)
  qed
qed

lemma wheel_loop_exit:
  "\<not> (cand \<le> bound \<and> cand * cand \<le> num) \<Longrightarrow> wheel_loop num bound cand i = Inr num"
proof -
  have "wheel_loop num bound cand i = Inr num" if "\<not> cand \<le> bound"
    using that by (subst wheel_loop.simps) simp
  moreover have "wheel_loop num bound cand i = Inr num" if "\<not> cand * cand \<le> num"
    using that by (subst wheel_loop.simps) simp
  ultimately show "\<not> (cand \<le> bound \<and> cand * cand \<le> num) \<Longrightarrow> ?thesis" by blast
qed

lemma wheel_loop_found:
  "cand \<le> bound \<Longrightarrow> cand * cand \<le> num \<Longrightarrow> cand \<noteq> 0 \<Longrightarrow> num mod cand = 0 \<Longrightarrow>
   wheel_loop num bound cand i = Inr cand"
  by (subst wheel_loop.simps) simp

lemma wheel_loop_step:
  "cand \<le> bound \<Longrightarrow> cand * cand \<le> num \<Longrightarrow> cand \<noteq> 0 \<Longrightarrow> num mod cand \<noteq> 0 \<Longrightarrow>
   \<not> length diffs \<le> i \<Longrightarrow>
   wheel_loop num bound cand i = wheel_loop num bound (cand + diffs ! i) ((i + 1) mod 8)"
  by (subst wheel_loop.simps) simp

lemma wheel_loop_spec:
  assumes "7 \<le> cand" "i < 8" "cand mod 30 = wheel_res ! i" "no_divisor_below num cand"
  shows "\<exists>r. wheel_loop num bound cand i = Inr r \<and>
           ((r dvd num \<and> 7 \<le> r \<and> r \<le> bound \<and> r * r \<le> num \<and> no_divisor_below num r)
            \<or> (r = num \<and> (\<exists>c. 7 \<le> c \<and> \<not> (c \<le> bound \<and> c * c \<le> num)
                               \<and> no_divisor_below num c)))"
  using assms
proof (induction num bound cand i rule: wheel_loop.induct)
  case (1 num bound cand i)
  show ?case
  proof (cases "cand \<le> bound \<and> cand * cand \<le> num")
    case False
    then have "wheel_loop num bound cand i = Inr num"
      by (rule wheel_loop_exit)
    with False "1.prems" show ?thesis by blast
  next
    case guard: True
    from "1.prems" have c0: "cand \<noteq> 0" and li: "\<not> length diffs \<le> i"
      by (simp_all add: length_diffs)
    show ?thesis
    proof (cases "num mod cand = 0")
      case True
      then have "wheel_loop num bound cand i = Inr cand"
        using guard c0 by (simp add: wheel_loop_found)
      moreover have "cand dvd num" using True by (simp add: dvd_eq_mod_eq_0)
      ultimately show ?thesis using guard "1.prems" by blast
    next
      case False
      then have nd: "\<not> cand dvd num" by (simp add: dvd_eq_mod_eq_0)
      have step: "wheel_loop num bound cand i
                  = wheel_loop num bound (cand + diffs ! i) ((i + 1) mod 8)"
        using guard c0 li False by (simp add: wheel_loop_step)
      have "0 < diffs ! i" using li by (simp add: diffs_pos)
      with "1.prems" have a: "7 \<le> cand + diffs ! i" by simp
      have b: "(i + 1) mod 8 < 8" by simp
      have c: "(cand + diffs ! i) mod 30 = wheel_res ! ((i + 1) mod 8)"
        using "1.prems" by (intro wheel_next)
      have d: "no_divisor_below num (cand + diffs ! i)"
        using "1.prems" nd by (intro no_divisor_below_step)
      show ?thesis
        unfolding step using "1.IH" [OF guard c0 False li a b c d] .
    qed
  qed
qed

lemma wheel_loop_total:
  "7 \<le> cand \<Longrightarrow> i < 8 \<Longrightarrow> \<exists>r. wheel_loop num bound cand i = Inr r"
proof (induction num bound cand i rule: wheel_loop.induct)
  case (1 num bound cand i)
  from "1.prems" have c0: "cand \<noteq> 0" and li: "\<not> length diffs \<le> i"
    by (simp_all add: length_diffs)
  show ?case
  proof (cases "cand \<le> bound \<and> cand * cand \<le> num")
    case False
    then show ?thesis by (simp add: wheel_loop_exit)
  next
    case guard: True
    show ?thesis
    proof (cases "num mod cand = 0")
      case True
      then show ?thesis using guard c0 by (simp add: wheel_loop_found)
    next
      case False
      have "0 < diffs ! i" using li by (simp add: diffs_pos)
      with "1.prems" have a: "7 \<le> cand + diffs ! i" by simp
      have b: "(i + 1) mod 8 < 8" by simp
      have step: "wheel_loop num bound cand i
                  = wheel_loop num bound (cand + diffs ! i) ((i + 1) mod 8)"
        using guard c0 li False by (simp add: wheel_loop_step)
      show ?thesis
        unfolding step using "1.IH" [OF guard c0 False li a b] .
    qed
  qed
qed

lemma least_divisor_prime: "least_divisor num p \<Longrightarrow> is_prime p"
  unfolding least_divisor_def is_prime_def no_divisor_below_def
  by (auto dest: dvd_trans)

lemma least_divisor_unique: "least_divisor num p \<Longrightarrow> least_divisor num q \<Longrightarrow> p = q"
  unfolding least_divisor_def no_divisor_below_def
  by (meson linorder_neqE_linordered_idom)

lemma no_divisor_below_2: "no_divisor_below num 2"
  by (auto simp: no_divisor_below_def)

lemma no_divisor_below_Suc:
  assumes "no_divisor_below num c" "\<not> c dvd num"
  shows "no_divisor_below num (c + 1)"
  unfolding no_divisor_below_def
proof (intro allI impI)
  fix d assume "2 \<le> d \<and> d < c + 1"
  then have "2 \<le> d \<and> d < c \<or> d = c" by linarith
  with assms show "\<not> d dvd num" unfolding no_divisor_below_def by blast
qed

lemma no_divisor_below_small:
  fixes num :: int
  shows "\<not> 2 dvd num \<Longrightarrow> no_divisor_below num 3"
    and "\<not> 2 dvd num \<Longrightarrow> \<not> 3 dvd num \<Longrightarrow> no_divisor_below num 5"
    and "\<not> 2 dvd num \<Longrightarrow> \<not> 3 dvd num \<Longrightarrow> \<not> 5 dvd num \<Longrightarrow> no_divisor_below num 7"
proof -
  assume two: "\<not> 2 dvd num"
  have "(2::int) dvd 4" "(2::int) dvd 6" by simp_all
  with two have even: "\<not> 4 dvd num" "\<not> 6 dvd num"
    by (blast dest: dvd_trans)+
  show n3: "no_divisor_below num 3"
    using no_divisor_below_Suc [OF no_divisor_below_2 two] by simp
  assume three: "\<not> 3 dvd num"
  have n4: "no_divisor_below num 4"
    using no_divisor_below_Suc [OF n3 three] by simp
  show n5: "no_divisor_below num 5"
    using no_divisor_below_Suc [OF n4 even(1)] by simp
  assume five: "\<not> 5 dvd num"
  have n6: "no_divisor_below num 6"
    using no_divisor_below_Suc [OF n5 five] by simp
  show "no_divisor_below num 7"
    using no_divisor_below_Suc [OF n6 even(2)] by simp
qed

lemma small_prime_check_235:
  "small_prime_check num [2, 3, 5] =
     (if 2 dvd num then Some 2 else if 3 dvd num then Some 3
      else if 5 dvd num then Some 5 else None)"
  by (simp add: dvd_eq_mod_eq_0)

lemma small_prime_check_Some:
  assumes "small_prime_check num [2, 3, 5] = Some p"
  shows "least_divisor num p \<and> p \<le> 5"
proof -
  note a = assms [unfolded small_prime_check_235]
  show ?thesis
  proof (cases "2 dvd num")
    case True
    with a have "p = 2" by simp
    with True show ?thesis by (simp add: least_divisor_def no_divisor_below_2)
  next
    case two: False
    show ?thesis
    proof (cases "3 dvd num")
      case True
      with a two have "p = 3" by simp
      with True two show ?thesis by (simp add: least_divisor_def no_divisor_below_small)
    next
      case three: False
      show ?thesis
      proof (cases "5 dvd num")
        case True
        with a two three have "p = 5" by simp
        with True two three show ?thesis
          by (simp add: least_divisor_def no_divisor_below_small)
      next
        case False
        with a two three show ?thesis by simp
      qed
    qed
  qed
qed

lemma small_prime_check_None:
  assumes "small_prime_check num [2, 3, 5] = None"
  shows "no_divisor_below num 7"
proof -
  from assms have "\<not> 2 dvd num" "\<not> 3 dvd num" "\<not> 5 dvd num"
    unfolding small_prime_check_235 by (simp_all split: if_splits)
  then show ?thesis by (rule no_divisor_below_small)
qed

lemma no_divisor_below_sqrt:
  assumes nd: "no_divisor_below num c" and sq: "num < c * c" and c: "0 < c" and n: "0 < num"
  shows "no_divisor_below num num"
  unfolding no_divisor_below_def
proof (intro allI impI notI)
  fix d assume d: "2 \<le> d \<and> d < num" and dv: "d dvd num"
  from dv obtain e where e: "num = d * e" by (auto simp: dvd_def)
  have e2: "2 \<le> e"
  proof (rule ccontr)
    assume "\<not> 2 \<le> e"
    then have "e \<le> 1" by simp
    then have "d * e \<le> d * 1" using d by (intro mult_left_mono) simp_all
    with e d show False by simp
  qed
  have edv: "e dvd num" using e by simp
  have "d < c \<or> e < c"
  proof (rule ccontr)
    assume "\<not> (d < c \<or> e < c)"
    then have "c \<le> d" "c \<le> e" by simp_all
    then have "c * c \<le> d * e" using c by (intro mult_mono) simp_all
    with e sq show False by simp
  qed
  then show False
    using nd d dv e2 edv unfolding no_divisor_below_def by blast
qed

lemma least_divisor_self: "2 \<le> num \<Longrightarrow> no_divisor_below num num \<Longrightarrow> least_divisor num num"
  by (simp add: least_divisor_def)

lemma smallest_prime_divisor_None:
  assumes n: "2 \<le> num"
  shows "\<exists>p. smallest_prime_divisor num None = Inr p \<and> least_divisor num p"
proof (cases "small_prime_check num [2, 3, 5]")
  case (Some p)
  with n have "smallest_prime_divisor num None = Inr p"
    by (simp add: smallest_prime_divisor_def)
  with small_prime_check_Some [OF Some] show ?thesis by blast
next
  case None
  have eq: "smallest_prime_divisor num None = wheel_loop num num 7 1"
    using n None by (simp add: smallest_prime_divisor_def)
  have "(7::int) mod 30 = wheel_res ! 1" by (simp add: wheel_res_def)
  with wheel_loop_spec [of 7 1 num num] small_prime_check_None [OF None]
  obtain r where r: "wheel_loop num num 7 1 = Inr r"
    and alt: "(r dvd num \<and> 7 \<le> r \<and> r \<le> num \<and> r * r \<le> num \<and> no_divisor_below num r)
              \<or> (r = num \<and> (\<exists>c. 7 \<le> c \<and> \<not> (c \<le> num \<and> c * c \<le> num)
                                 \<and> no_divisor_below num c))"
    by auto
  from alt have "least_divisor num r"
  proof
    assume "r dvd num \<and> 7 \<le> r \<and> r \<le> num \<and> r * r \<le> num \<and> no_divisor_below num r"
    then show ?thesis by (simp add: least_divisor_def)
  next
    assume "r = num \<and> (\<exists>c. 7 \<le> c \<and> \<not> (c \<le> num \<and> c * c \<le> num) \<and> no_divisor_below num c)"
    then obtain c where rn: "r = num" and c: "7 \<le> c" "\<not> (c \<le> num \<and> c * c \<le> num)"
      and nd: "no_divisor_below num c" by blast
    have "num < c * c"
    proof (cases "c \<le> num")
      case True
      with c(2) show ?thesis by simp
    next
      case False
      have "c * 1 \<le> c * c" using c(1) by (intro mult_left_mono) simp_all
      with False show ?thesis by simp
    qed
    with nd c(1) n have "no_divisor_below num num"
      by (intro no_divisor_below_sqrt [of num c]) simp_all
    with n rn show ?thesis by (simp add: least_divisor_self)
  qed
  with eq r show ?thesis by simp
qed

text \<open>
  C8.  \<open>smallest_prime_divisor(num, bound)\<close> raises the invalid-argument
  error if and only if \<open>num < 1\<close>; for every \<open>num \<ge> 1\<close> it returns
  normally, whatever the bound.
\<close>

theorem smallest_prime_divisor_raises_iff:
  "(num < 1 \<longrightarrow> smallest_prime_divisor num bound = Inl ValueError)
   \<and> (1 \<le> num \<longrightarrow> (\<exists>r. smallest_prime_divisor num bound = Inr r))"
proof (intro conjI impI)
  assume "num < 1"
  then show "smallest_prime_divisor num bound = Inl ValueError"
    by (simp add: smallest_prime_divisor_def)
next
  assume n: "1 \<le> num"
  show "\<exists>r. smallest_prime_divisor num bound = Inr r"
  proof (cases "small_prime_check num [2, 3, 5]")
    case None
    obtain r where "wheel_loop num (case bound of None \<Rightarrow> num | Some b \<Rightarrow> b) 7 1 = Inr r"
      using wheel_loop_total [of 7 1] by auto
    with None n show ?thesis by (simp add: smallest_prime_divisor_def Let_def)
  next
    case (Some p)
    with n show ?thesis by (simp add: smallest_prime_divisor_def)
  qed
qed

theorem smallest_prime_divisor_raises_iff_witness:
  "smallest_prime_divisor 0 None = Inl ValueError
   \<and> (\<exists>r. smallest_prime_divisor 1001 (Some 3) = Inr r)"
proof -
  have "(0::int) < 1" and "(1::int) \<le> 1001" by simp_all
  then show ?thesis
    using smallest_prime_divisor_raises_iff [of 0 None]
      smallest_prime_divisor_raises_iff [of 1001 "Some 3"]
    by blast
qed

text \<open>
  C3 (the code departs from the claim).  The primes \<open>2\<close>, \<open>3\<close> and \<open>5\<close> are
  tried before \<open>bound\<close> is looked at, so a divisor above the bound is returned:
  \<open>smallest_prime_divisor(4, 0)\<close> is \<open>2\<close>, although no divisor of \<open>4\<close> is
  at most \<open>0\<close> and the claim (with the docstring) has \<open>4\<close> returned unchanged.
\<close>

theorem smallest_prime_divisor_below_bound:
  "smallest_prime_divisor 4 (Some 0) = Inr 2 \<and> smallest_prime_divisor 4 (Some 0) \<noteq> Inr 4"
  by (simp add: smallest_prime_divisor_def)

lemma smallest_prime_divisor_bounded:
  assumes n: "2 \<le> num" and lp: "least_divisor num p"
  shows "smallest_prime_divisor num bound
         = Inr (if p \<le> 5 \<or> p \<le> (case bound of None \<Rightarrow> num | Some b \<Rightarrow> b) then p else num)"
proof (cases "small_prime_check num [2, 3, 5]")
  case (Some q)
  from small_prime_check_Some [OF Some] have "least_divisor num q" "q \<le> 5" by simp_all
  with lp have "q = p" "p \<le> 5" by (auto dest: least_divisor_unique)
  moreover from n Some have "smallest_prime_divisor num bound = Inr q"
    by (simp add: smallest_prime_divisor_def)
  ultimately show ?thesis by simp
next
  case None
  define b where "b = (case bound of None \<Rightarrow> num | Some b \<Rightarrow> b)"
  from lp have p2: "2 \<le> p" and pd: "p dvd num" and nb: "no_divisor_below num p"
    by (simp_all add: least_divisor_def)
  have n7: "no_divisor_below num 7" by (rule small_prime_check_None [OF None])
  have p7: "7 \<le> p"
  proof (rule ccontr)
    assume "\<not> 7 \<le> p"
    with p2 pd n7 show False unfolding no_divisor_below_def by auto
  qed
  have eq: "smallest_prime_divisor num bound = wheel_loop num b 7 1"
    using n None by (simp add: smallest_prime_divisor_def b_def)
  have "(7::int) mod 30 = wheel_res ! 1" by (simp add: wheel_res_def)
  with wheel_loop_spec [of 7 1 num b] n7
  obtain r where r: "wheel_loop num b 7 1 = Inr r"
    and alt: "(r dvd num \<and> 7 \<le> r \<and> r \<le> b \<and> r * r \<le> num \<and> no_divisor_below num r)
              \<or> (r = num \<and> (\<exists>c. 7 \<le> c \<and> \<not> (c \<le> b \<and> c * c \<le> num)
                                 \<and> no_divisor_below num c))"
    by auto
  have "r = (if p \<le> b then p else num)"
    using alt
  proof
    assume a: "r dvd num \<and> 7 \<le> r \<and> r \<le> b \<and> r * r \<le> num \<and> no_divisor_below num r"
    then have "least_divisor num r" by (simp add: least_divisor_def)
    then have "r = p" using lp by (rule least_divisor_unique)
    with a show ?thesis by simp
  next
    assume "r = num \<and> (\<exists>c. 7 \<le> c \<and> \<not> (c \<le> b \<and> c * c \<le> num) \<and> no_divisor_below num c)"
    then obtain c where rn: "r = num" and c: "7 \<le> c" "\<not> (c \<le> b \<and> c * c \<le> num)"
      and nd: "no_divisor_below num c" by blast
    show ?thesis
    proof (cases "p \<le> b")
      case False
      with rn show ?thesis by simp
    next
      case True
      have "c \<le> p"
      proof (rule ccontr)
        assume "\<not> c \<le> p"
        with p2 pd nd show False unfolding no_divisor_below_def by auto
      qed
      with True c(2) have "num < c * c" by simp
      with nd c(1) n have "no_divisor_below num num"
        by (intro no_divisor_below_sqrt [of num c]) simp_all
      with n have "least_divisor num num" by (simp add: least_divisor_self)
      with lp have "p = num" by (rule least_divisor_unique)
      with rn True show ?thesis by simp
    qed
  qed
  with eq r p7 show ?thesis by (simp add: b_def)
qed


lemma least_divisor_smallest_prime:
  assumes "least_divisor num p"
  shows "is_prime p \<and> p dvd num \<and> (\<forall>q. is_prime q \<and> q dvd num \<longrightarrow> p \<le> q)"
proof (intro conjI allI impI)
  show "is_prime p" using assms by (rule least_divisor_prime)
  show "p dvd num" using assms by (simp add: least_divisor_def)
  fix q assume q: "is_prime q \<and> q dvd num"
  then have "2 \<le> q" by (simp add: is_prime_def)
  with q assms show "p \<le> q"
    unfolding least_divisor_def no_divisor_below_def by (meson not_le)
qed

text \<open>
  What \<open>smallest_prime_divisor\<close> returns for \<open>num \<ge> 2\<close>, where \<open>p\<close> is the
  smallest prime dividing \<open>num\<close>: \<open>p\<close> when \<open>p\<close> is one of \<open>2\<close>, \<open>3\<close>,
  \<open>5\<close> or is at most the bound (the bound being \<open>num\<close> when it is left out),
  and \<open>num\<close> otherwise.
\<close>

theorem smallest_prime_divisor_exact:
  "2 \<le> num \<Longrightarrow>
   \<exists>p. is_prime p \<and> p dvd num \<and> (\<forall>q. is_prime q \<and> q dvd num \<longrightarrow> p \<le> q)
     \<and> smallest_prime_divisor num bound
         = Inr (if p \<le> 5 \<or> p \<le> (case bound of None \<Rightarrow> num | Some b \<Rightarrow> b)
                then p else num)"
proof -
  assume n: "2 \<le> num"
  from smallest_prime_divisor_None [OF n] obtain p where lp: "least_divisor num p" by blast
  from least_divisor_smallest_prime [OF lp] smallest_prime_divisor_bounded [OF n lp, of bound]
  show ?thesis by blast
qed

lemma spd_1001: "smallest_prime_divisor 1001 (Some 3) = Inr 1001"
  by code_simp

theorem smallest_prime_divisor_exact_witness:
  "smallest_prime_divisor 1001 (Some 3) = Inr 1001
   \<and> (\<exists>p. is_prime p \<and> p dvd 1001 \<and> 5 < p \<and> 3 < p)"
proof -
  have "(2::int) \<le> 1001" by simp
  from smallest_prime_divisor_exact [OF this, of "Some 3"]
  obtain p where p: "is_prime p" "p dvd 1001"
    and r: "smallest_prime_divisor 1001 (Some 3)
            = Inr (if p \<le> 5 \<or> p \<le> 3 then p else 1001)"
    by auto
  have "\<not> (p \<le> 5 \<or> p \<le> 3)"
  proof
    assume a: "p \<le> 5 \<or> p \<le> 3"
    with r spd_1001 have "p = 1001" by simp
    with a show False by simp
  qed
  with p spd_1001 show ?thesis by auto
qed

section \<open>Properties of primes\<close>

text \<open>
  C2 (the code departs from the claim).  The result always starts with \<open>2\<close>
  and \<open>3\<close>, whatever the limit: \<open>primes(2)\<close> and \<open>primes(3)\<close> are both
  \<open>[2, 3]\<close>, where the claim has \<open>[]\<close> and \<open>[2]\<close>.  \<open>primes(10)\<close> is
  \<open>[2, 3, 5, 7]\<close>, as the claim says.
\<close>

theorem primes_small_limits:
  "primes 2 = Inr [2, 3] \<and> primes 3 = Inr [2, 3] \<and> primes 10 = Inr [2, 3, 5, 7]"
  by code_simp

section \<open>Properties of factor\<close>

lemma power_loop_spec:
  assumes "2 \<le> prime" "1 \<le> num"
  shows "\<exists>num' k. power_loop num prime exp = Some (Inr (num', exp + int k))
           \<and> num = num' * prime ^ k \<and> \<not> prime dvd num' \<and> 1 \<le> num'"
  using assms(2)
proof (induction "nat num" arbitrary: num exp rule: less_induct)
  case less
  from assms(1) have p0: "prime \<noteq> 0" by simp
  show ?case
  proof (cases "num mod prime = 0")
    case False
    then have "power_loop num prime exp = Some (Inr (num, exp + int 0))"
      using p0 by (subst power_loop.simps) simp
    moreover have "\<not> prime dvd num" using False by (simp add: dvd_eq_mod_eq_0)
    ultimately show ?thesis using less.prems
      by (intro exI [of _ num] exI [of _ 0]) simp
  next
    case True
    then have dv: "prime dvd num" by (simp add: dvd_eq_mod_eq_0)
    then have num: "num = num div prime * prime" by simp
    have q1: "1 \<le> num div prime"
    proof (rule ccontr)
      assume "\<not> 1 \<le> num div prime"
      then have "num div prime \<le> 0" by simp
      then have "num div prime * prime \<le> 0"
        using assms(1) by (intro mult_nonpos_nonneg) simp_all
      with num less.prems show False by simp
    qed
    have "num div prime < num"
      using q1 assms(1) less.prems by (intro int_div_less_self) simp_all
    with q1 have "nat (num div prime) < nat num" by simp
    from less.hyps [OF this q1, of "exp + 1"]
    obtain num' k where
      r: "power_loop (num div prime) prime (exp + 1) = Some (Inr (num', exp + 1 + int k))"
      and f: "num div prime = num' * prime ^ k" and nd: "\<not> prime dvd num'" and n1: "1 \<le> num'"
      by blast
    have "power_loop num prime exp = power_loop (num div prime) prime (exp + 1)"
      using True p0 by (subst power_loop.simps) simp
    with r have "power_loop num prime exp = Some (Inr (num', exp + int (Suc k)))"
      by simp
    moreover have "num = num' * prime ^ Suc k"
      using num f by simp
    ultimately show ?thesis using nd n1 by blast
  qed
qed


lemma factor_loop_one: "factor_loop 1 acc = Some (Inr acc)"
  by (subst factor_loop.simps) simp

lemma factor_loop_step:
  assumes "num \<noteq> 1" "smallest_prime_divisor num None = Inr prime" "prime \<noteq> 0"
    "power_loop (num div prime) prime 1 = Some (Inr (num', exp))"
  shows "factor_loop num acc = factor_loop num' (acc @ [(prime, exp)])"
  using assms by (subst factor_loop.simps) simp

lemma factor_loop_spec:
  assumes "1 \<le> num"
  shows "\<exists>fs. factor_loop num acc = Some (Inr (acc @ fs))
           \<and> is_factorization num fs \<and> (\<forall>p \<in> set (map fst fs). p dvd num)"
  using assms
proof (induction "nat num" arbitrary: num acc rule: less_induct)
  case less
  show ?case
  proof (cases "num = 1")
    case True
    then show ?thesis
      by (intro exI [of _ "[]"]) (simp add: factor_loop_one is_factorization_def prime_powers_def)
  next
    case False
    with less.prems have n2: "2 \<le> num" by simp
    from smallest_prime_divisor_None [OF n2]
    obtain p where sp: "smallest_prime_divisor num None = Inr p" and lp: "least_divisor num p"
      by blast
    from lp have p2: "2 \<le> p" and pd: "p dvd num" and nb: "no_divisor_below num p"
      by (simp_all add: least_divisor_def)
    have np: "num = num div p * p" using pd by simp
    have q1: "1 \<le> num div p"
    proof (rule ccontr)
      assume "\<not> 1 \<le> num div p"
      then have "num div p \<le> 0" by simp
      then have "num div p * p \<le> 0" using p2 by (intro mult_nonpos_nonneg) simp_all
      with np n2 show False by simp
    qed
    from power_loop_spec [OF p2 q1, of 1]
    obtain num' k where pl: "power_loop (num div p) p 1 = Some (Inr (num', 1 + int k))"
      and f: "num div p = num' * p ^ k" and nd: "\<not> p dvd num'" and n1: "1 \<le> num'"
      by blast
    have num_eq: "num = num' * p ^ Suc k" using np f by simp
    have pw: "1 < p ^ Suc k"
      using p2 by (intro one_less_power) simp_all
    have "1 * num' < p ^ Suc k * num'"
      using n1 pw by (intro mult_strict_right_mono) simp_all
    with num_eq have lt: "num' < num" by (simp add: mult.commute)
    with n1 have "nat num' < nat num" by simp
    from less.hyps [OF this n1, of "acc @ [(p, 1 + int k)]"]
    obtain fs where r: "factor_loop num' ((acc @ [(p, 1 + int k)])) = Some (Inr ((acc @ [(p, 1 + int k)]) @ fs))"
      and fac: "is_factorization num' fs" and dv: "\<forall>q \<in> set (map fst fs). q dvd num'"
      by blast
    let ?fs = "(p, 1 + int k) # fs"
    have "factor_loop num acc = factor_loop num' (acc @ [(p, 1 + int k)])"
      using False sp p2 pl by (intro factor_loop_step) simp_all
    with r have res: "factor_loop num acc = Some (Inr (acc @ ?fs))" by simp
    have n'dv: "num' dvd num" using num_eq by simp
    have dv': "\<forall>q \<in> set (map fst ?fs). q dvd num"
      using dv pd n'dv by (auto dest: dvd_trans)
    have primes: "list_all (\<lambda>(q, e). is_prime q \<and> 1 \<le> e) fs"
      using fac by (simp add: is_factorization_def)
    have gt: "p < q" if "q \<in> set (map fst fs)" for q
    proof -
      from that dv have qd: "q dvd num'" by blast
      from qd n'dv have qn: "q dvd num" by (rule dvd_trans)
      from that primes have "is_prime q" by (auto simp: list_all_iff)
      then have q2: "2 \<le> q" by (simp add: is_prime_def)
      with qn nb have "\<not> q < p" unfolding no_divisor_below_def by blast
      moreover have "q \<noteq> p" using qd nd by blast
      ultimately show ?thesis by simp
    qed
    have "is_factorization num ?fs"
      unfolding is_factorization_def
    proof (intro conjI)
      show "list_all (\<lambda>(q, e). is_prime q \<and> 1 \<le> e) ?fs"
        using primes least_divisor_prime [OF lp] by simp
      show "sorted_wrt (<) (map fst ?fs)"
        using fac gt by (simp add: is_factorization_def)
      have "prime_powers fs = num'" using fac by (simp add: is_factorization_def)
      then show "prime_powers ?fs = num"
        using num_eq by (simp add: prime_powers_def nat_add_distrib mult.commute)
    qed
    with res dv' show ?thesis by blast
  qed
qed

lemma factor_abs:
  assumes n: "1 < \<bar>n\<bar>"
  shows "\<exists>fs. factor n = Some (Inr fs) \<and> is_factorization \<bar>n\<bar> fs"
proof -
  from n have "n \<notin> {- 1, 0, 1}" by auto
  then have "factor n = factor_loop \<bar>n\<bar> []"
    by (simp add: factor_def abs_if)
  moreover from n have "1 \<le> \<bar>n\<bar>" by simp
  from factor_loop_spec [OF this, of "[]"]
  obtain fs where "factor_loop \<bar>n\<bar> [] = Some (Inr fs)" "is_factorization \<bar>n\<bar> fs"
    by auto
  ultimately show ?thesis by simp
qed

text \<open>
  C1.  For every integer \<open>n\<close> with \<open>|n| > 1\<close>, \<open>factor(n)\<close> returns a
  sequence of (prime, exponent) pairs in which every first component is prime,
  the primes are strictly increasing, every exponent is at least \<open>1\<close>, and
  the product of the prime powers is \<open>|n|\<close>; for \<open>n\<close> in \<open>{-1, 0, 1}\<close> it
  returns the empty sequence.
\<close>

theorem factor_spec:
  "(1 < \<bar>n\<bar> \<longrightarrow>
      (\<exists>fs. factor n = Some (Inr fs)
          \<and> (\<forall>(p, e) \<in> set fs. is_prime p \<and> 1 \<le> e)
          \<and> sorted_wrt (<) (map fst fs)
          \<and> (\<Prod>(p, e) \<leftarrow> fs. p ^ nat e) = \<bar>n\<bar>))
   \<and> (n \<in> {- 1, 0, 1} \<longrightarrow> factor n = Some (Inr []))"
proof (intro conjI impI)
  assume n: "1 < \<bar>n\<bar>"
  from factor_abs [OF n] obtain fs where
    "factor n = Some (Inr fs)" "is_factorization \<bar>n\<bar> fs" by blast
  then show "\<exists>fs. factor n = Some (Inr fs)
          \<and> (\<forall>(p, e) \<in> set fs. is_prime p \<and> 1 \<le> e)
          \<and> sorted_wrt (<) (map fst fs)
          \<and> (\<Prod>(p, e) \<leftarrow> fs. p ^ nat e) = \<bar>n\<bar>"
    by (auto simp: is_factorization_def prime_powers_def list_all_iff)
next
  assume "n \<in> {- 1, 0, 1}"
  then show "factor n = Some (Inr [])" by (simp add: factor_def)
qed

lemma factor_7007: "factor (- 7007) = Some (Inr [(7, 2), (11, 1), (13, 1)])"
  by code_simp

theorem factor_spec_witness:
  "factor (- 7007) = Some (Inr [(7, 2), (11, 1), (13, 1)])
   \<and> is_prime 7 \<and> is_prime 11 \<and> is_prime 13
   \<and> (\<Prod>(p, e) \<leftarrow> [(7, 2), (11, 1), (13, 1)]. p ^ nat e) = (7007 :: int)
   \<and> factor 1 = Some (Inr [])"
proof -
  have "(1::int) < \<bar>- 7007\<bar>" by simp
  with factor_spec [of "- 7007"]
  obtain fs where fs: "factor (- 7007) = Some (Inr fs)"
    and pr: "\<forall>(p, e) \<in> set fs. is_prime p \<and> 1 \<le> e"
    and pp: "(\<Prod>(p, e) \<leftarrow> fs. p ^ nat e) = \<bar>- 7007\<bar>"
    by blast
  from fs factor_7007 have eq: "fs = [(7, 2), (11, 1), (13, 1)]" by simp
  from pr have "is_prime 7 \<and> is_prime 11 \<and> is_prime 13" unfolding eq by simp
  moreover from pp have "(\<Prod>(p, e) \<leftarrow> [(7, 2), (11, 1), (13, 1)]. p ^ nat e) = (7007 :: int)"
    unfolding eq by simp
  moreover have "factor 1 = Some (Inr [])" using factor_spec [of 1] by simp
  ultimately show ?thesis using factor_7007 by simp
qed

section \<open>Properties of factors\<close>

lemma is_prime_divisors:
  assumes "is_prime p" "d dvd p" "0 < d"
  shows "d = 1 \<or> d = p"
proof (rule ccontr)
  assume n: "\<not> (d = 1 \<or> d = p)"
  from assms(1) have p: "2 \<le> p" by (simp add: is_prime_def)
  with assms(2) have "d \<le> p" by (intro zdvd_imp_le) simp_all
  with n assms(3) have "d \<in> {2..<p}" by simp
  with assms(1,2) show False by (simp add: is_prime_def)
qed

lemma is_prime_coprime:
  assumes "is_prime p" "\<not> p dvd a"
  shows "coprime p a"
proof -
  from assms(1) have p: "2 \<le> p" by (simp add: is_prime_def)
  have "gcd p a dvd p" by simp
  moreover have "0 < gcd p a" using p by (simp add: gcd_pos_int)
  ultimately have "gcd p a = 1 \<or> gcd p a = p"
    using assms(1) by (intro is_prime_divisors)
  moreover have "gcd p a \<noteq> p"
  proof
    assume "gcd p a = p"
    then have "p dvd a" by (metis gcd_dvd2)
    with assms(2) show False by simp
  qed
  ultimately show ?thesis by (simp add: coprime_iff_gcd_eq_1)
qed

lemma is_prime_dvd_mult:
  assumes "is_prime p" "p dvd a * b"
  shows "p dvd a \<or> p dvd b"
proof (cases "p dvd a")
  case False
  with assms(1) have "coprime p a" by (rule is_prime_coprime)
  with assms(2) show ?thesis by (simp add: coprime_dvd_mult_right_iff)
qed simp

lemma is_prime_dvd_power:
  assumes "is_prime p" "p dvd a ^ n"
  shows "p dvd a"
  using assms(2)
proof (induction n)
  case 0
  then have "\<bar>p\<bar> = 1" by simp
  with assms(1) show ?case by (simp add: is_prime_def)
next
  case (Suc n)
  then have "p dvd a * a ^ n" by simp
  with assms(1) have "p dvd a \<or> p dvd a ^ n" by (rule is_prime_dvd_mult)
  with Suc.IH show ?case by blast
qed

lemma is_prime_dvd_prime:
  assumes "is_prime p" "is_prime q" "p dvd q"
  shows "p = q"
proof -
  from assms(1) have "2 \<le> p" by (simp add: is_prime_def)
  with is_prime_divisors [OF assms(2,3)] show ?thesis by simp
qed

lemma prime_power_divisors:
  assumes "is_prime p"
  shows "a dvd p ^ e \<Longrightarrow> 0 < a \<Longrightarrow> \<exists>x \<le> e. a = p ^ x"
proof (induction e arbitrary: a)
  case 0
  then have "a = 1" by simp
  then show ?case by simp
next
  case (Suc e)
  from assms have p: "2 \<le> p" by (simp add: is_prime_def)
  show ?case
  proof (cases "p dvd a")
    case True
    then obtain a' where a: "a = p * a'" by (auto simp: dvd_def)
    with Suc.prems p have "a' dvd p ^ e" by simp
    moreover have "0 < a'" using a Suc.prems(2) p by (simp add: zero_less_mult_iff)
    ultimately obtain x where "x \<le> e" "a' = p ^ x" using Suc.IH by blast
    with a have "Suc x \<le> Suc e" "a = p ^ Suc x" by simp_all
    then show ?thesis by blast
  next
    case False
    with assms have "coprime p a" by (rule is_prime_coprime)
    then have "coprime a p" by (simp add: coprime_commute)
    moreover from Suc.prems(1) have "a dvd p * p ^ e" by simp
    ultimately have "a dvd p ^ e" by (simp add: coprime_dvd_mult_right_iff)
    with Suc.IH Suc.prems(2) obtain x where "x \<le> e" "a = p ^ x" by blast
    then have "x \<le> Suc e" "a = p ^ x" by simp_all
    then show ?thesis by blast
  qed
qed

lemma not_dvd_prime_powers:
  assumes "is_prime p"
  shows "list_all (\<lambda>(q, e). is_prime q \<and> 1 \<le> e) fs \<Longrightarrow> p \<notin> set (map fst fs) \<Longrightarrow>
         \<not> p dvd prime_powers fs"
proof (induction fs)
  case Nil
  from assms have "2 \<le> p" by (simp add: is_prime_def)
  then show ?case by (simp add: prime_powers_def)
next
  case (Cons qe fs)
  obtain q e where qe: "qe = (q, e)" by (cases qe)
  from Cons.prems qe have q: "is_prime q" and ne: "p \<noteq> q"
    and rest: "list_all (\<lambda>(q, e). is_prime q \<and> 1 \<le> e) fs" "p \<notin> set (map fst fs)"
    by auto
  have pp: "prime_powers (qe # fs) = q ^ nat e * prime_powers fs"
    by (simp add: prime_powers_def qe)
  show ?case
  proof
    assume "p dvd prime_powers (qe # fs)"
    with pp assms have "p dvd q ^ nat e \<or> p dvd prime_powers fs"
      by (simp add: is_prime_dvd_mult)
    with Cons.IH [OF rest] have "p dvd q ^ nat e" by blast
    with assms have "p dvd q" by (rule is_prime_dvd_power)
    with assms q have "p = q" by (rule is_prime_dvd_prime)
    with ne show False by simp
  qed
qed


lemma fold_choice:
  "fold (\<lambda>(prime, exp) val. val * prime ^ nat exp) xs (a :: int)
   = a * fold (\<lambda>(prime, exp) val. val * prime ^ nat exp) xs 1"
proof (induction xs arbitrary: a)
  case Nil
  show ?case by simp
next
  case (Cons x xs)
  obtain p e where x: "x = (p, e)" by (cases x)
  have "fold (\<lambda>(prime, exp) val. val * prime ^ nat exp) (x # xs) a
        = fold (\<lambda>(prime, exp) val. val * prime ^ nat exp) xs (a * p ^ nat e)"
    by (simp add: x)
  also have "\<dots> = (a * p ^ nat e) * fold (\<lambda>(prime, exp) val. val * prime ^ nat exp) xs 1"
    by (rule Cons.IH)
  also have "\<dots> = a * (p ^ nat e * fold (\<lambda>(prime, exp) val. val * prime ^ nat exp) xs 1)"
    by (simp add: mult.assoc)
  also have "p ^ nat e * fold (\<lambda>(prime, exp) val. val * prime ^ nat exp) xs 1
             = fold (\<lambda>(prime, exp) val. val * prime ^ nat exp) xs (1 * p ^ nat e)"
    using Cons.IH [of "1 * p ^ nat e"] by simp
  finally show ?case by (simp add: x)
qed

lemma choice_value_Cons:
  "choice_value (p # ps) (x # c) = p ^ nat x * choice_value ps c"
proof -
  have "choice_value (p # ps) (x # c)
        = fold (\<lambda>(prime, exp) val. val * prime ^ nat exp) (zip ps c) (p ^ nat x)"
    by (simp add: choice_value_def)
  also have "\<dots> = p ^ nat x * choice_value ps c"
    unfolding choice_value_def by (rule fold_choice)
  finally show ?thesis .
qed

lemma ret_eq_divisor_list:
  "map (choice_value (map fst fs))
       (cartesian_product (map (\<lambda>exp. range_py (exp + 1)) (map snd fs)))
   = divisor_list fs"
proof (induction fs)
  case Nil
  show ?case by (simp add: choice_value_def)
next
  case (Cons pe fs)
  obtain p e where pe: "pe = (p, e)" by (cases pe)
  let ?cp = "cartesian_product (map (\<lambda>exp. range_py (exp + 1)) (map snd fs))"
  have "map (choice_value (map fst (pe # fs)))
          (cartesian_product (map (\<lambda>exp. range_py (exp + 1)) (map snd (pe # fs))))
        = concat (map (\<lambda>x. map (\<lambda>c. choice_value (p # map fst fs) (x # c)) ?cp) [0..e])"
    by (simp add: pe range_py_def map_concat comp_def)
  also have "\<dots> = concat (map (\<lambda>x. map (\<lambda>c. p ^ nat x * choice_value (map fst fs) c) ?cp) [0..e])"
    by (simp only: choice_value_Cons)
  also have "\<dots> = concat (map (\<lambda>x. map (\<lambda>v. p ^ nat x * v)
                                  (map (choice_value (map fst fs)) ?cp)) [0..e])"
    by (simp add: comp_def)
  also have "\<dots> = divisor_list (pe # fs)"
    by (simp only: pe divisor_list.simps Cons.IH)
  finally show ?case .
qed

lemma length_concat_const:
  "(\<And>x. length (f x) = n) \<Longrightarrow> length (concat (map f xs)) = length xs * n"
  by (induction xs) simp_all

lemma length_divisor_list:
  "list_all (\<lambda>(p, e). 0 \<le> e) fs \<Longrightarrow>
   int (length (divisor_list fs)) = (\<Prod>(p, e) \<leftarrow> fs. e + 1)"
proof (induction fs)
  case Nil
  show ?case by simp
next
  case (Cons pe fs)
  obtain p e where pe: "pe = (p, e)" by (cases pe)
  from Cons.prems pe have e: "0 \<le> e" and rest: "list_all (\<lambda>(p, e). 0 \<le> e) fs" by simp_all
  have "length (divisor_list (pe # fs)) = length [0..e] * length (divisor_list fs)"
    unfolding pe divisor_list.simps by (rule length_concat_const) simp
  then have "int (length (divisor_list (pe # fs))) = (e + 1) * int (length (divisor_list fs))"
    using e by simp
  with Cons.IH [OF rest] show ?case by (simp add: pe)
qed

lemma divisor_list_product:
  "divisor_list ((p, e) # fs)
   = map (\<lambda>(x, v). p ^ nat x * v) (List.product [0..e] (divisor_list fs))"
proof -
  have "concat (map (\<lambda>x. map (\<lambda>v. p ^ nat x * v) ys) xs)
        = map (\<lambda>(x, v). p ^ nat x * v) (List.product xs ys)" for xs :: "int list" and ys
    by (induction xs) (simp_all add: comp_def)
  then show ?thesis by simp
qed

lemma power_mult_cancel:
  fixes p :: int
  assumes "a \<le> b" "p ^ a * v = p ^ b * v'" "\<not> p dvd v" "p \<noteq> 0"
  shows "a = b \<and> v = v'"
proof -
  from assms(1) obtain k where b: "b = a + k" by (auto simp: le_iff_add)
  with assms(2) have "p ^ a * v = p ^ a * (p ^ k * v')" by (simp add: power_add mult.assoc)
  with assms(4) have v: "v = p ^ k * v'" by simp
  have "k = 0"
  proof (rule ccontr)
    assume "k \<noteq> 0"
    then obtain j where "k = Suc j" by (cases k) auto
    with v have "v = p * (p ^ j * v')" by (simp add: mult.assoc)
    then have "p dvd v" by simp
    with assms(3) show False by simp
  qed
  with b v show ?thesis by simp
qed


lemma divisor_list_Cons_set:
  "set (divisor_list ((p, e) # fs))
   = {p ^ nat x * v | x v. x \<in> {0..e} \<and> v \<in> set (divisor_list fs)}"
proof -
  have "set (divisor_list ((p, e) # fs))
        = (\<lambda>(x, v). p ^ nat x * v) ` ({0..e} \<times> set (divisor_list fs))"
    by (simp only: divisor_list_product set_map set_product set_upto)
  also have "\<dots> = {p ^ nat x * v | x v. x \<in> {0..e} \<and> v \<in> set (divisor_list fs)}"
  proof (intro equalityI subsetI)
    fix d assume "d \<in> (\<lambda>(x, v). p ^ nat x * v) ` ({0..e} \<times> set (divisor_list fs))"
    then obtain x v where "d = p ^ nat x * v" "x \<in> {0..e}" "v \<in> set (divisor_list fs)"
      by auto
    then show "d \<in> {p ^ nat x * v | x v. x \<in> {0..e} \<and> v \<in> set (divisor_list fs)}"
      by blast
  next
    fix d assume "d \<in> {p ^ nat x * v | x v. x \<in> {0..e} \<and> v \<in> set (divisor_list fs)}"
    then obtain x v where d: "d = p ^ nat x * v" and "x \<in> {0..e}" "v \<in> set (divisor_list fs)"
      by blast
    then have "(x, v) \<in> {0..e} \<times> set (divisor_list fs)" by simp
    then have "(\<lambda>(x, v). p ^ nat x * v) (x, v)
               \<in> (\<lambda>(x, v). p ^ nat x * v) ` ({0..e} \<times> set (divisor_list fs))"
      by (rule imageI)
    with d show "d \<in> (\<lambda>(x, v). p ^ nat x * v) ` ({0..e} \<times> set (divisor_list fs))"
      by simp
  qed
  finally show ?thesis .
qed

lemma divisors_prime_power_mult:
  assumes p: "is_prime p" and e: "0 \<le> e"
  shows "{d. 0 < d \<and> d dvd p ^ nat e * m}
         = {p ^ nat x * v | x v. x \<in> {0..e} \<and> v \<in> {d. 0 < d \<and> d dvd m}}"
    (is "?L = ?R")
proof (intro equalityI subsetI)
  from p have p2: "2 \<le> p" by (simp add: is_prime_def)
  fix d assume "d \<in> ?R"
  then obtain x v where d: "d = p ^ nat x * v" and x: "0 \<le> x" "x \<le> e"
    and v: "0 < v" "v dvd m" by auto
  have "nat x \<le> nat e" using x by simp
  then have "p ^ nat x dvd p ^ nat e" by (rule le_imp_power_dvd)
  from this v(2) have "p ^ nat x * v dvd p ^ nat e * m" by (rule mult_dvd_mono)
  moreover have "0 < p ^ nat x * v" using p2 v(1) by simp
  ultimately show "d \<in> ?L" using d by simp
next
  fix d assume "d \<in> ?L"
  then have d0: "0 < d" and dd: "d dvd p ^ nat e * m" by simp_all
  from division_decomp [OF dd] obtain b c where
    bc: "d = b * c" "b dvd p ^ nat e" "c dvd m" by blast
  from d0 bc(1) have nz: "b \<noteq> 0" "c \<noteq> 0" by auto
  have dabs: "d = \<bar>b\<bar> * \<bar>c\<bar>"
    using d0 bc(1) by (metis abs_mult abs_of_pos)
  have "\<bar>b\<bar> dvd p ^ nat e" "0 < \<bar>b\<bar>" using bc(2) nz by simp_all
  with prime_power_divisors [OF p] obtain x where x: "x \<le> nat e" "\<bar>b\<bar> = p ^ x" by blast
  have "int x \<in> {0..e}" using x(1) e by auto
  moreover have "\<bar>c\<bar> \<in> {d. 0 < d \<and> d dvd m}" using bc(3) nz by simp
  moreover have "d = p ^ nat (int x) * \<bar>c\<bar>" using dabs x(2) by simp
  ultimately show "d \<in> ?R" by blast
qed

lemma divisor_list_spec:
  assumes "list_all (\<lambda>(p, e). is_prime p \<and> 1 \<le> e) fs" "distinct (map fst fs)"
  shows "set (divisor_list fs) = {d. 0 < d \<and> d dvd prime_powers fs}
         \<and> distinct (divisor_list fs)"
  using assms
proof (induction fs)
  case Nil
  have "{d :: int. 0 < d \<and> d dvd 1} = {1}" by auto
  then show ?case by (simp add: prime_powers_def)
next
  case (Cons pe fs)
  obtain p e where pe: "pe = (p, e)" by (cases pe)
  from Cons.prems pe have p: "is_prime p" and e: "1 \<le> e"
    and rest: "list_all (\<lambda>(p, e). is_prime p \<and> 1 \<le> e) fs" "distinct (map fst fs)"
    and new: "p \<notin> set (map fst fs)"
    by auto
  from p have p2: "2 \<le> p" by (simp add: is_prime_def)
  let ?m = "prime_powers fs" and ?L = "divisor_list fs"
  from Cons.IH [OF rest] have setL: "set ?L = {d. 0 < d \<and> d dvd ?m}" and distL: "distinct ?L"
    by simp_all
  have ndvd: "\<not> p dvd ?m" using p rest(1) new by (rule not_dvd_prime_powers)
  have pp: "prime_powers ((p, e) # fs) = p ^ nat e * ?m"
    by (simp add: prime_powers_def)
  have e0: "0 \<le> e" using e by simp
  have "set (divisor_list (pe # fs)) = {d. 0 < d \<and> d dvd prime_powers (pe # fs)}"
    unfolding pe pp divisor_list_Cons_set setL
    by (rule divisors_prime_power_mult [OF p e0, symmetric])
  moreover have "distinct (divisor_list (pe # fs))"
    unfolding pe divisor_list_product distinct_map
  proof (intro conjI)
    show "distinct (List.product [0..e] ?L)"
      using distL by (intro distinct_product) simp_all
    show "inj_on (\<lambda>(x, v). p ^ nat x * v) (set (List.product [0..e] ?L))"
    proof (rule inj_onI)
      fix a b
      assume a: "a \<in> set (List.product [0..e] ?L)" and b: "b \<in> set (List.product [0..e] ?L)"
        and eq: "(case a of (x, v) \<Rightarrow> p ^ nat x * v) = (case b of (x, v) \<Rightarrow> p ^ nat x * v)"
      obtain x v where av: "a = (x, v)" by (cases a)
      obtain x' v' where bv: "b = (x', v')" by (cases b)
      from a av have x: "0 \<le> x" and v: "v \<in> set ?L" by simp_all
      from b bv have x': "0 \<le> x'" and v': "v' \<in> set ?L" by simp_all
      from eq av bv have eq': "p ^ nat x * v = p ^ nat x' * v'" by simp
      have nv: "\<not> p dvd v" "\<not> p dvd v'"
        using v v' setL ndvd by (auto dest: dvd_trans)
      have "nat x = nat x' \<and> v = v'"
      proof (cases "nat x \<le> nat x'")
        case True
        from power_mult_cancel [OF True eq' nv(1)] p2 show ?thesis by simp
      next
        case False
        then have "nat x' \<le> nat x" by simp
        from power_mult_cancel [OF this eq' [symmetric] nv(2)] p2 show ?thesis by simp
      qed
      with x x' show "a = b" by (simp add: av bv eq_nat_nat_iff)
    qed
  qed
  ultimately show ?case by simp
qed

lemma factors_eq:
  assumes n: "1 < \<bar>n\<bar>"
  shows "\<exists>fs. factor n = Some (Inr fs) \<and> is_factorization \<bar>n\<bar> fs
           \<and> factors n = Some (Inr (sort (divisor_list fs)))"
proof -
  from factor_abs [OF n] obtain fs where
    f: "factor n = Some (Inr fs)" and fac: "is_factorization \<bar>n\<bar> fs" by blast
  have "fs \<noteq> []"
  proof
    assume "fs = []"
    with fac have "\<bar>n\<bar> = 1" by (simp add: is_factorization_def prime_powers_def)
    with n show False by simp
  qed
  then have "factors n = Some (Inr (sort (map (choice_value (map fst fs))
                (cartesian_product (map (\<lambda>exp. range_py (exp + 1)) (map snd fs))))))"
    using f by (simp add: factors_def unzip_def Let_def del: map_map)
  then have "factors n = Some (Inr (sort (divisor_list fs)))"
    unfolding ret_eq_divisor_list .
  with f fac show ?thesis by blast
qed

text \<open>
  C6.  For every integer \<open>n\<close> with \<open>|n| > 1\<close>, \<open>factors(n)\<close> returns the
  ascending sorted sequence of all positive divisors of \<open>|n|\<close>, and its length
  is the product over \<open>factor(n)\<close> of \<open>exponent + 1\<close>.
\<close>

theorem factors_spec:
  "1 < \<bar>n\<bar> \<Longrightarrow>
   \<exists>ds fs. factors n = Some (Inr ds) \<and> factor n = Some (Inr fs)
     \<and> sorted_wrt (<) ds \<and> set ds = {d. 0 < d \<and> d dvd \<bar>n\<bar>}
     \<and> int (length ds) = (\<Prod>(p, e) \<leftarrow> fs. e + 1)"
proof -
  assume n: "1 < \<bar>n\<bar>"
  from factors_eq [OF n] obtain fs where
    f: "factor n = Some (Inr fs)" and fac: "is_factorization \<bar>n\<bar> fs"
    and ds: "factors n = Some (Inr (sort (divisor_list fs)))" by blast
  from fac have pr: "list_all (\<lambda>(p, e). is_prime p \<and> 1 \<le> e) fs"
    and so: "sorted_wrt (<) (map fst fs)" and pp: "prime_powers fs = \<bar>n\<bar>"
    by (simp_all add: is_factorization_def)
  from so have di: "distinct (map fst fs)" by (simp add: strict_sorted_iff)
  from divisor_list_spec [OF pr di] pp
  have s: "set (divisor_list fs) = {d. 0 < d \<and> d dvd \<bar>n\<bar>}" and d: "distinct (divisor_list fs)"
    by simp_all
  from pr have "list_all (\<lambda>(p, e). 0 \<le> e) fs"
    by (auto simp: list_all_iff)
  then have len: "int (length (divisor_list fs)) = (\<Prod>(p, e) \<leftarrow> fs. e + 1)"
    by (rule length_divisor_list)
  have "sorted_wrt (<) (sort (divisor_list fs))"
    using d by (simp add: strict_sorted_iff)
  moreover have "set (sort (divisor_list fs)) = {d. 0 < d \<and> d dvd \<bar>n\<bar>}"
    using s by simp
  moreover have "int (length (sort (divisor_list fs))) = (\<Prod>(p, e) \<leftarrow> fs. e + 1)"
    using len by simp
  ultimately show ?thesis using f ds by blast
qed

lemma factors_30: "factors 30 = Some (Inr [1, 2, 3, 5, 6, 10, 15, 30])"
  by code_simp

lemma factor_30: "factor 30 = Some (Inr [(2, 1), (3, 1), (5, 1)])"
  by code_simp

theorem factors_spec_witness:
  "factors 30 = Some (Inr [1, 2, 3, 5, 6, 10, 15, 30])
   \<and> set [1, 2, 3, 5, 6, 10, 15, 30] = {d. 0 < d \<and> d dvd (30 :: int)}
   \<and> int (length [1, 2, 3, 5, 6, 10, 15, 30 :: int])
       = (\<Prod>(p, e) \<leftarrow> [(2, 1), (3, 1), (5, 1) :: int \<times> int]. e + 1)"
proof -
  have "(1::int) < \<bar>30\<bar>" by simp
  from factors_spec [OF this] obtain ds fs where
    "factors 30 = Some (Inr ds)" "factor 30 = Some (Inr fs)"
    "set ds = {d. 0 < d \<and> d dvd \<bar>30 :: int\<bar>}"
    "int (length ds) = (\<Prod>(p, e) \<leftarrow> fs. e + 1)"
    by blast
  with factors_30 factor_30 show ?thesis by simp
qed

text \<open>
  C4 (the code departs from the claim).  For \<open>num\<close> in \<open>{-1, 0, 1}\<close> the
  factorization is empty, and unpacking \<open>zip(*factorization)\<close> into two names
  raises \<open>ValueError\<close>; the claim has the divisor list \<open>[1]\<close> returned.
\<close>

theorem factors_degenerate_raises:
  "factors (- 1) = Some (Inl ValueError) \<and> factors 0 = Some (Inl ValueError)
   \<and> factors 1 = Some (Inl ValueError)"
  by (simp add: factors_def factor_def unzip_def)

section \<open>Properties of convolution\_coeff\<close>

text \<open>
  C7 (the code departs from the claim).  \<open>convolution_coeff(1, fun1, fun2)\<close>
  raises the \<open>ValueError\<close> of \<open>factors(1)\<close>, whatever the two functions; the
  claim has \<open>fun1(1) * fun2(1)\<close> returned for the positive integer \<open>1\<close>.
\<close>

theorem convolution_coeff_one_raises:
  "convolution_coeff 1 fun1 fun2 = Some (Inl ValueError)"
  by (simp add: convolution_coeff_def factors_def factor_def unzip_def)

lemma convolution_loop_sum:
  "0 \<notin> set ds \<Longrightarrow>
   convolution_loop val fun1 fun2 ds ret
   = Inr (ret + sum_list (map (\<lambda>d. fun1 d * fun2 (val div d)) ds))"
  by (induction ds arbitrary: ret) (simp_all add: add.assoc)

text \<open>
  For \<open>val > 1\<close>, \<open>convolution_coeff(val, fun1, fun2)\<close> is the sum of
  \<open>fun1(d) * fun2(val // d)\<close> over the positive divisors \<open>d\<close> of \<open>val\<close>.
\<close>

theorem convolution_coeff_sum:
  "1 < val \<Longrightarrow>
   convolution_coeff val fun1 fun2
   = Some (Inr (\<Sum>d | 0 < d \<and> d dvd val. fun1 d * fun2 (val div d)))"
proof -
  assume v: "1 < val"
  then have av: "1 < \<bar>val\<bar>" and abs: "\<bar>val\<bar> = val" by simp_all
  from factors_eq [OF av] obtain fs where
    fac: "is_factorization \<bar>val\<bar> fs"
    and ds: "factors val = Some (Inr (sort (divisor_list fs)))" by blast
  from fac have pr: "list_all (\<lambda>(p, e). is_prime p \<and> 1 \<le> e) fs"
    and so: "sorted_wrt (<) (map fst fs)" and pp: "prime_powers fs = val"
    by (simp_all add: is_factorization_def abs)
  from so have di: "distinct (map fst fs)" by (simp add: strict_sorted_iff)
  let ?ds = "sort (divisor_list fs)"
  from divisor_list_spec [OF pr di] pp
  have s: "set ?ds = {d. 0 < d \<and> d dvd val}" and d: "distinct ?ds"
    by simp_all
  from s have "0 \<notin> set ?ds" by simp
  then have "convolution_loop val fun1 fun2 ?ds 0
             = Inr (0 + sum_list (map (\<lambda>d. fun1 d * fun2 (val div d)) ?ds))"
    by (rule convolution_loop_sum)
  also have "sum_list (map (\<lambda>d. fun1 d * fun2 (val div d)) ?ds)
             = (\<Sum>d \<in> set ?ds. fun1 d * fun2 (val div d))"
    using d by (rule sum_list_distinct_conv_sum_set)
  finally show ?thesis using ds s by (simp add: convolution_coeff_def)
qed

lemma convolution_6: "convolution_coeff 6 (\<lambda>x. 2 * x) (\<lambda>x. 1) = Some (Inr (24 :: int))"
  by code_simp

theorem convolution_coeff_sum_witness:
  "convolution_coeff 6 (\<lambda>x. 2 * x) (\<lambda>x. 1) = Some (Inr (24 :: int))
   \<and> (\<Sum>d | 0 < d \<and> d dvd (6 :: int). 2 * d * 1) = (24 :: int)"
proof -
  have "(1::int) < 6" by simp
  from convolution_coeff_sum [OF this, of "\<lambda>x. 2 * x" "\<lambda>x. 1 :: int"] convolution_6
  show ?thesis by simp
qed

end
